theory Spec2Isabelle
  imports Complex_Main "HOL-Library.AList" "HOL-Library.Sublist"
begin

section \<open>Strings and pure paths\<close>

text \<open>
  Python's \<^verbatim>\<open>str.startswith\<close>, \<^verbatim>\<open>str.endswith\<close> and \<^verbatim>\<open>str.lower\<close> (the last on the ASCII
  letters: the tests of the program compare with ASCII text only, and no other letter
  lowers to one of its characters).
\<close>

definition startswith :: "string \<Rightarrow> string \<Rightarrow> bool" where
  "startswith s p = (take (length p) s = p)"

definition endswith :: "string \<Rightarrow> string \<Rightarrow> bool" where
  "endswith s p = (length p \<le> length s \<and> drop (length s - length p) s = p)"

definition lower_char :: "char \<Rightarrow> char" where
  "lower_char c = (let n = (of_char c :: nat) in
     if 65 \<le> n \<and> n \<le> 90 then char_of (n + 32) else c)"

definition lower :: "string \<Rightarrow> string" where
  "lower s = map lower_char s"

text \<open>
  Names and paths are the byte strings the operating system holds (UTF-8 on a POSIX host).
  \<^verbatim>\<open>s.split(sep)\<close> gives the pieces between the separators, empty pieces included;
  \<^verbatim>\<open>s.find(c, start)\<close> gives the first position of \<open>c\<close> from \<open>start\<close> on.
\<close>

fun split_on :: "char \<Rightarrow> string \<Rightarrow> string list" where
  "split_on sep [] = [[]]"
| "split_on sep (c # cs) =
     (if c = sep then [] # split_on sep cs
      else (case split_on sep cs of
              [] \<Rightarrow> [[c]]
            | w # ws \<Rightarrow> (c # w) # ws))"

definition find_from :: "char \<Rightarrow> string \<Rightarrow> nat \<Rightarrow> nat option" where
  "find_from c s start =
     (let t = drop start s
      in if c \<in> set t then Some (start + length (takeWhile (\<lambda>x. x \<noteq> c) t)) else None)"

text \<open>
  \<^verbatim>\<open>pathlib.Path\<close> is \<^verbatim>\<open>PosixPath\<close> on Linux, Android and macOS and \<^verbatim>\<open>WindowsPath\<close> on
  Windows; the program runs on all of them. A pure path is a drive (empty on POSIX), a
  root and the components after them. The definitions follow pathlib's two flavours
  (\<^verbatim>\<open>splitroot\<close>, \<^verbatim>\<open>parse_parts\<close>, \<^verbatim>\<open>join_parsed_parts\<close>): parsing drops empty components
  and \<^verbatim>\<open>.\<close>, keeps \<^verbatim>\<open>..\<close>, and on Windows reads a slash as a backslash.
\<close>

datatype platform = Posix | Windows

datatype ppath = PPath (drive: string) (root: string) (parts: "string list")

definition sep_of :: "platform \<Rightarrow> char" where
  "sep_of pf = (case pf of Posix \<Rightarrow> CHR ''/'' | Windows \<Rightarrow> CHR 0x5C)"

definition posix_splitroot :: "string \<Rightarrow> string \<times> string \<times> string" where
  "posix_splitroot part =
     (if part \<noteq> [] \<and> hd part = CHR ''/'' then
        (let stripped_part = dropWhile (\<lambda>c. c = CHR ''/'') part
         in if length part - length stripped_part = 2 then ([], ''//'', stripped_part)
            else ([], ''/'', stripped_part))
      else ([], [], part))"

text \<open>The extended-path prefix of Windows (two backslashes, a question mark, a backslash), with or without \<^verbatim>\<open>UNC\<close> and a backslash after it.\<close>

definition split_extended_path :: "string \<Rightarrow> string \<times> string" where
  "split_extended_path s =
     (if startswith s [CHR 0x5C, CHR 0x5C, CHR ''?'', CHR 0x5C] then
        (let ext_prefix = take 4 s; s1 = drop 4 s
         in if startswith s1 [CHR ''U'', CHR ''N'', CHR ''C'', CHR 0x5C]
            then (ext_prefix @ take 3 s1, CHR 0x5C # drop 3 s1)
            else (ext_prefix, s1))
      else ([], s))"

definition drive_letter :: "char \<Rightarrow> bool" where
  "drive_letter c =
     (let n = (of_char c :: nat) in (65 \<le> n \<and> n \<le> 90) \<or> (97 \<le> n \<and> n \<le> 122))"

text \<open>
  The Windows \<^verbatim>\<open>splitroot\<close>. Its last part, for a segment that is not a UNC path: an
  optional drive letter with its colon, then an optional root.
\<close>

definition windows_splitroot_plain :: "string \<Rightarrow> string \<Rightarrow> string \<times> string \<times> string" where
  "windows_splitroot_plain ext_prefix part =
     (let first = take 1 part; second = take 1 (drop 1 part); third = take 1 (drop 2 part);
          has_drv = (second = '':'' \<and> first \<noteq> [] \<and> drive_letter (hd first));
          drv = (if has_drv then take 2 part else []);
          part1 = (if has_drv then drop 2 part else part);
          first1 = (if has_drv then third else first)
      in if first1 = [CHR 0x5C]
         then (ext_prefix @ drv, first1, dropWhile (\<lambda>c. c = CHR 0x5C) part1)
         else (ext_prefix @ drv, [], part1))"

definition windows_splitroot :: "string \<Rightarrow> string \<times> string \<times> string" where
  "windows_splitroot part0 =
     (let sep = CHR 0x5C;
          ext = (take 1 (drop 1 part0) = [sep] \<and> take 1 part0 = [sep]);
          ext_prefix = (if ext then fst (split_extended_path part0) else []);
          part = (if ext then snd (split_extended_path part0) else part0);
          first = take 1 part; second = take 1 (drop 1 part); third = take 1 (drop 2 part)
      in if second = [sep] \<and> first = [sep] \<and> third \<noteq> [sep] then
           (case find_from sep part 2 of
              None \<Rightarrow> windows_splitroot_plain ext_prefix part
            | Some index \<Rightarrow>
                (case find_from sep part (index + 1) of
                   None \<Rightarrow>
                     (if ext_prefix \<noteq> [] then (ext_prefix @ drop 1 part, [sep], [])
                      else (part, [sep], []))
                 | Some index2 \<Rightarrow>
                     if index2 \<noteq> index + 1 then
                       (if ext_prefix \<noteq> []
                        then (ext_prefix @ take (index2 - 1) (drop 1 part), [sep],
                              drop (index2 + 1) part)
                        else (take index2 part, [sep], drop (index2 + 1) part))
                     else windows_splitroot_plain ext_prefix part))
         else windows_splitroot_plain ext_prefix part)"

text \<open>\<^verbatim>\<open>parse_parts\<close> on the one segment that the operator \<^verbatim>\<open>/\<close> is given.\<close>

definition parse_part :: "platform \<Rightarrow> string \<Rightarrow> ppath" where
  "parse_part pf part0 =
     (if part0 = [] then PPath [] [] []
      else
        (let sep = sep_of pf;
             part = (case pf of Posix \<Rightarrow> part0
                     | Windows \<Rightarrow> map (\<lambda>c. if c = CHR ''/'' then sep else c) part0);
             (drv, rt, rel) = (case pf of Posix \<Rightarrow> posix_splitroot part
                               | Windows \<Rightarrow> windows_splitroot part)
         in PPath drv rt (filter (\<lambda>x. x \<noteq> [] \<and> x \<noteq> ''.'') (split_on sep rel))))"

text \<open>
  \<^verbatim>\<open>join_parsed_parts\<close>: a segment with a root replaces what is on its left (keeping the
  left drive when it has none of its own); a segment with only a drive is relative to
  the left path when the drives agree, letter case aside, and replaces it otherwise.
\<close>

definition join_parsed_parts :: "platform \<Rightarrow> ppath \<Rightarrow> ppath \<Rightarrow> ppath" where
  "join_parsed_parts pf p p2 =
     (if root p2 \<noteq> [] then
        (if drive p2 = [] \<and> drive p \<noteq> [] then PPath (drive p) (root p2) (parts p2) else p2)
      else if drive p2 \<noteq> [] then
        (if drive p2 = drive p \<or> lower (drive p2) = lower (drive p)
         then PPath (drive p) (root p) (parts p @ parts p2)
         else p2)
      else PPath (drive p) (root p) (parts p @ parts p2))"

text \<open>The operator \<^verbatim>\<open>p / s\<close>.\<close>

definition joinpath :: "platform \<Rightarrow> ppath \<Rightarrow> string \<Rightarrow> ppath" where
  "joinpath pf p s = join_parsed_parts pf p (parse_part pf s)"

text \<open>
  The target of one archive member in restore:
  \<^verbatim>\<open>
  if member.startswith('media/'):
      target_path = staging_dir / 'media' / member[6:]
  else:
      target_path = staging_dir / member
  \<close>
\<close>

definition target_path :: "platform \<Rightarrow> ppath \<Rightarrow> string \<Rightarrow> ppath" where
  "target_path pf staging_dir member =
     (if startswith member ''media/''
      then joinpath pf (joinpath pf staging_dir ''media'') (drop 6 member)
      else joinpath pf staging_dir member)"

text \<open>
  The staging directory of restore, \<^verbatim>\<open>TEMP / 'restore_staging'\<close>, for a host whose
  temporary directory is \<^verbatim>\<open>/kodi/temp\<close> and for one where it is \<^verbatim>\<open>C:\kodi\temp\<close>.
\<close>

definition posix_staging :: ppath where
  "posix_staging = joinpath Posix (parse_part Posix ''/kodi/temp'') ''restore_staging''"

definition windows_staging :: ppath where
  "windows_staging =
     joinpath Windows (parse_part Windows (''C:'' @ [CHR 0x5C] @ ''kodi'' @ [CHR 0x5C] @ ''temp''))
       ''restore_staging''"

text \<open>
  \<^verbatim>\<open>'/'.join(parts)\<close>, the text of a relative path; the empty path prints as a dot.
\<close>

fun join_slash :: "string list \<Rightarrow> string" where
  "join_slash [] = ''.''"
| "join_slash [w] = w"
| "join_slash (w # v # ws) = w @ CHR ''/'' # join_slash (v # ws)"

section \<open>The file system\<close>

text \<open>
  What a file holds: plain bytes, or a zip archive, which is a list of members
  (name, whether the stored checksum matches, data). A directory marker is a member whose
  name ends in a slash and whose data is empty.
\<close>

datatype fdata = Raw string | Zip "(string \<times> bool \<times> fdata) list"

type_synonym archive = "(string \<times> bool \<times> fdata) list"

text \<open>
  A directory lists its children in the order \<^verbatim>\<open>os.scandir\<close> reports them. A file is
  \<^emph>\<open>locked\<close> when the operating system refuses to delete, replace or rename it (a file
  the host holds open), and \<^emph>\<open>readable\<close> when \<^verbatim>\<open>ZipFile.write\<close> can add it to an
  archive. Only regular files and directories are modelled, so \<^verbatim>\<open>stat\<close> on a listed
  file does not fail.
\<close>

datatype node =
    File (locked: bool) (readable: bool) (mtime: rat) (fdata: fdata)
  | Dir "(string \<times> node) list"

datatype pyerror =
    FileNotFoundError | FileExistsError | NotADirectoryError | IsADirectoryError
  | PermissionError | BadZipFile | ValueError | UnicodeEncodeError | StructError

fun is_dir_node :: "node \<Rightarrow> bool" where
  "is_dir_node (Dir kids) = True"
| "is_dir_node (File l r m d) = False"


fun lookup :: "node \<Rightarrow> string list \<Rightarrow> node option" where
  "lookup n [] = Some n"
| "lookup (File l r m d) (c # cs) = None"
| "lookup (Dir kids) (c # cs) =
     (case map_of kids c of None \<Rightarrow> None | Some k \<Rightarrow> lookup k cs)"

text \<open>
  \<open>modify p f t\<close> replaces what is at the path \<open>p\<close> by \<open>f\<close> of it (\<open>None\<close> is
  absence); the directories above \<open>p\<close> must exist, otherwise nothing changes. A new
  child goes to the end of its directory's listing.
\<close>

fun modify :: "string list \<Rightarrow> (node option \<Rightarrow> node option) \<Rightarrow> node \<Rightarrow> node" where
  "modify [] f n = n"
| "modify (c # cs) f (File l r m d) = File l r m d"
| "modify (c # cs) f (Dir kids) =
     (if cs = [] then
        (case f (map_of kids c) of
           None \<Rightarrow> Dir (AList.delete c kids)
         | Some n \<Rightarrow> Dir (AList.update c n kids))
      else
        (case map_of kids c of
           None \<Rightarrow> Dir kids
         | Some k \<Rightarrow> Dir (AList.update c (modify cs f k) kids)))"

text \<open>
  How the operating system resolves the components of an absolute path: \<^verbatim>\<open>..\<close> steps
  to the parent, and every component but the last must be an existing directory.
\<close>

fun resolve_from :: "node \<Rightarrow> string list \<Rightarrow> string list \<Rightarrow> pyerror + string list" where
  "resolve_from fs cur [] = Inr cur"
| "resolve_from fs cur (c # cs) =
     (if c = ''..'' then resolve_from fs (butlast cur) cs
      else if cs = [] then Inr (cur @ [c])
      else (case lookup fs (cur @ [c]) of
              None \<Rightarrow> Inl FileNotFoundError
            | Some (File l r m d) \<Rightarrow> Inl NotADirectoryError
            | Some (Dir kids) \<Rightarrow> resolve_from fs (cur @ [c]) cs))"

definition resolve :: "node \<Rightarrow> string list \<Rightarrow> pyerror + string list" where
  "resolve fs p = resolve_from fs [] p"

text \<open>\<^verbatim>\<open>Path.exists\<close>, \<^verbatim>\<open>Path.is_dir\<close> and the listing of \<^verbatim>\<open>Path.iterdir\<close>.\<close>

definition node_at :: "node \<Rightarrow> string list \<Rightarrow> node option" where
  "node_at fs p = (case resolve fs p of Inl e \<Rightarrow> None | Inr q \<Rightarrow> lookup fs q)"


definition path_is_dir :: "node \<Rightarrow> string list \<Rightarrow> bool" where
  "path_is_dir fs p = (case node_at fs p of Some (Dir kids) \<Rightarrow> True | _ \<Rightarrow> False)"


text \<open>\<^verbatim>\<open>os.unlink\<close> (also \<^verbatim>\<open>os.remove\<close>, \<^verbatim>\<open>Path.unlink\<close>).\<close>

definition os_unlink :: "string list \<Rightarrow> node \<Rightarrow> pyerror + node" where
  "os_unlink p fs =
     (case resolve fs p of
        Inl e \<Rightarrow> Inl e
      | Inr q \<Rightarrow>
          (case lookup fs q of
             None \<Rightarrow> Inl FileNotFoundError
           | Some (Dir kids) \<Rightarrow> Inl IsADirectoryError
           | Some (File l r m d) \<Rightarrow>
               if l then Inl PermissionError else Inr (modify q (\<lambda>_. None) fs)))"

text \<open>\<^verbatim>\<open>os.mkdir\<close> and \<^verbatim>\<open>os.rmdir\<close>.\<close>

definition os_mkdir :: "string list \<Rightarrow> node \<Rightarrow> pyerror + node" where
  "os_mkdir p fs =
     (case resolve fs p of
        Inl e \<Rightarrow> Inl e
      | Inr q \<Rightarrow>
          (case lookup fs q of
             Some n \<Rightarrow> Inl FileExistsError
           | None \<Rightarrow>
               (case lookup fs (butlast q) of
                  None \<Rightarrow> Inl FileNotFoundError
                | Some (File l r m d) \<Rightarrow> Inl NotADirectoryError
                | Some (Dir kids) \<Rightarrow> Inr (modify q (\<lambda>_. Some (Dir [])) fs))))"


text \<open>
  \<^verbatim>\<open>Path.mkdir(parents=True, exist_ok=True)\<close>, as pathlib writes it: try the directory,
  on a missing parent make the parent first and try once more, and accept any other
  error when the path is a directory already.
\<close>

function mkdir_parents :: "string list \<Rightarrow> node \<Rightarrow> pyerror + node" where
  "mkdir_parents p fs =
     (case os_mkdir p fs of
        Inr fs' \<Rightarrow> Inr fs'
      | Inl e \<Rightarrow>
          if e = FileNotFoundError then
            (if p = [] then Inl e
             else (case mkdir_parents (butlast p) fs of
                     Inl e' \<Rightarrow> Inl e'
                   | Inr fs' \<Rightarrow>
                       (case os_mkdir p fs' of
                          Inr fs'' \<Rightarrow> Inr fs''
                        | Inl e' \<Rightarrow>
                            if e' \<noteq> FileNotFoundError \<and> path_is_dir fs' p then Inr fs'
                            else Inl e')))
          else if path_is_dir fs p then Inr fs else Inl e)"
  by pat_completeness auto
termination
  by (relation "measure (\<lambda>(p, fs). length p)") auto

text \<open>
  Opening a file for writing and storing \<open>d\<close> in it (\<^verbatim>\<open>open(path, 'wb')\<close> and the
  writes that follow). A new file is unlocked, readable and stamped \<open>now\<close>.
\<close>

definition write_file :: "rat \<Rightarrow> string list \<Rightarrow> fdata \<Rightarrow> node \<Rightarrow> pyerror + node" where
  "write_file now p d fs =
     (case resolve fs p of
        Inl e \<Rightarrow> Inl e
      | Inr q \<Rightarrow>
          (case lookup fs q of
             Some (Dir kids) \<Rightarrow> Inl IsADirectoryError
           | Some (File l r m d') \<Rightarrow>
               if l then Inl PermissionError
               else Inr (modify q (\<lambda>_. Some (File False True now d)) fs)
           | None \<Rightarrow>
               (case lookup fs (butlast q) of
                  None \<Rightarrow> Inl FileNotFoundError
                | Some (File l r m d') \<Rightarrow> Inl NotADirectoryError
                | Some (Dir kids) \<Rightarrow>
                    Inr (modify q (\<lambda>_. Some (File False True now d)) fs))))"

text \<open>Reading a whole file (\<^verbatim>\<open>open(path, 'rb')\<close>).\<close>

definition read_file :: "node \<Rightarrow> string list \<Rightarrow> pyerror + fdata" where
  "read_file fs p =
     (case resolve fs p of
        Inl e \<Rightarrow> Inl e
      | Inr q \<Rightarrow>
          (case lookup fs q of
             None \<Rightarrow> Inl FileNotFoundError
           | Some (Dir kids) \<Rightarrow> Inl IsADirectoryError
           | Some (File l r m d) \<Rightarrow> if r then Inr d else Inl PermissionError))"

text \<open>
  \<^verbatim>\<open>os.walk(top)\<close>, top down: for every directory its path, the names of its
  subdirectories and the names of its files. The loop body may remove names from the
  list of subdirectories before the walk descends; \<open>pr\<close> is that edit. A top that is
  not a directory yields nothing.
\<close>

fun dir_names :: "(string \<times> node) list \<Rightarrow> string list" where
  "dir_names [] = []"
| "dir_names ((n, Dir kids) # ks) = n # dir_names ks"
| "dir_names ((n, File l r m d) # ks) = dir_names ks"

fun file_names :: "(string \<times> node) list \<Rightarrow> string list" where
  "file_names [] = []"
| "file_names ((n, Dir kids) # ks) = file_names ks"
| "file_names ((n, File l r m d) # ks) = n # file_names ks"

fun oswalk :: "(string list \<Rightarrow> string list) \<Rightarrow> string list \<Rightarrow> node
                 \<Rightarrow> (string list \<times> string list \<times> string list) list"
  and oswalk_kids :: "(string list \<Rightarrow> string list) \<Rightarrow> string list \<Rightarrow> string list
                 \<Rightarrow> (string \<times> node) list \<Rightarrow> (string list \<times> string list \<times> string list) list"
where
  "oswalk pr root_dir (File l r m d) = []"
| "oswalk pr root_dir (Dir kids) =
     (let dirs = pr (dir_names kids)
      in (root_dir, dirs, file_names kids) # oswalk_kids pr root_dir dirs kids)"
| "oswalk_kids pr root_dir dirs [] = []"
| "oswalk_kids pr root_dir dirs ((n, k) # ks) =
     (if n \<in> set dirs \<and> is_dir_node k then oswalk pr (root_dir @ [n]) k else [])
     @ oswalk_kids pr root_dir dirs ks"

definition walk :: "(string list \<Rightarrow> string list) \<Rightarrow> node \<Rightarrow> string list
                      \<Rightarrow> (string list \<times> string list \<times> string list) list" where
  "walk pr fs root_dir =
     (case node_at fs root_dir of None \<Rightarrow> [] | Some n \<Rightarrow> oswalk pr root_dir n)"

section \<open>The host's directories\<close>

text \<open>
  Modelled from the spec: \<^verbatim>\<open>xbmcvfs.translatePath\<close> is the host's. The logical roots are
  fixed for the life of the process; the layout is the host's default one, with the home
  directory at \<^verbatim>\<open>/kodi\<close>: add-ons, user data, media and the temporary directory are
  children of home, packages is a child of add-ons, thumbnails and the databases are
  children of user data.
\<close>

definition HOME :: "string list" where "HOME = [''kodi'']"
definition ADDONS :: "string list" where "ADDONS = HOME @ [''addons'']"
definition USERDATA :: "string list" where "USERDATA = HOME @ [''userdata'']"
definition MEDIA :: "string list" where "MEDIA = HOME @ [''media'']"
definition DATABASE :: "string list" where "DATABASE = USERDATA @ [''Database'']"

section \<open>Resilient file operations\<close>

text \<open>
  \<^verbatim>\<open>shutil.rmtree(path, ignore_errors=True)\<close>. \<open>purge n\<close> is what is left of a node
  once everything that can be deleted has been: a locked file stays, and so does every
  directory that still holds something. On a path that is not a directory the call
  does nothing.
\<close>

fun purge :: "node \<Rightarrow> node option"
  and purge_kids :: "(string \<times> node) list \<Rightarrow> (string \<times> node) list"
where
  "purge (File l r m d) = (if l then Some (File l r m d) else None)"
| "purge (Dir kids) =
     (case purge_kids kids of [] \<Rightarrow> None | k # ks \<Rightarrow> Some (Dir (k # ks)))"
| "purge_kids [] = []"
| "purge_kids ((n, k) # ks) =
     (case purge k of None \<Rightarrow> purge_kids ks | Some k' \<Rightarrow> (n, k') # purge_kids ks)"

definition rmtree_ignore :: "string list \<Rightarrow> node \<Rightarrow> node" where
  "rmtree_ignore p fs =
     (case resolve fs p of
        Inl e \<Rightarrow> fs
      | Inr q \<Rightarrow>
          (case lookup fs q of
             Some (Dir kids) \<Rightarrow>
               if q = [] then Dir (purge_kids kids) else modify q (\<lambda>_. purge (Dir kids)) fs
           | _ \<Rightarrow> fs))"

text \<open>
  \<^verbatim>\<open>safe_delete_item\<close>: a directory goes through \<^verbatim>\<open>rmtree\<close>, anything else through
  \<^verbatim>\<open>unlink\<close>, and a failure is logged and swallowed.
\<close>

definition safe_delete_item :: "string list \<Rightarrow> node \<Rightarrow> node" where
  "safe_delete_item item_path fs =
     (if path_is_dir fs item_path then rmtree_ignore item_path fs
      else (case os_unlink item_path fs of Inl e \<Rightarrow> fs | Inr fs' \<Rightarrow> fs'))"

text \<open>
  \<^verbatim>\<open>safe_wipe_folder(folder_path, exclude_list)\<close>: the children are listed once, then
  deleted one by one. Listing a path that exists and is not a directory raises.
\<close>

fun wipe_loop :: "string list \<Rightarrow> string list \<Rightarrow> string list \<Rightarrow> node \<Rightarrow> node" where
  "wipe_loop folder_path exclude_list [] fs = fs"
| "wipe_loop folder_path exclude_list (name # names) fs =
     (if name \<in> set exclude_list then wipe_loop folder_path exclude_list names fs
      else wipe_loop folder_path exclude_list names (safe_delete_item (folder_path @ [name]) fs))"







section \<open>Trimming a folder to a size\<close>











section \<open>The routine clean\<close>



section \<open>Backup: counting and archiving\<close>

text \<open>
  \<^verbatim>\<open>get_zip_arcname(full_path, base_path)\<close>: the path relative to the base, with forward
  slashes; the bare file name when the path is not below the base.
\<close>

definition get_zip_arcname :: "string list \<Rightarrow> string list \<Rightarrow> string" where
  "get_zip_arcname full_path base_path =
     (if take (length base_path) full_path = base_path
      then join_slash (drop (length base_path) full_path)
      else (if full_path = [] then [] else last full_path))"

text \<open>
  The test on a file name that leaves the texture cache databases out:
  \<^verbatim>\<open>f.lower().startswith('textures') and f.lower().endswith('.db')\<close>.
\<close>

definition is_texture_db :: "string \<Rightarrow> bool" where
  "is_texture_db f = (startswith (lower f) ''textures'' \<and> endswith (lower f) ''.db'')"

text \<open>
  The edit of the subdirectory list in \<^verbatim>\<open>_count_backup_files\<close>
  (\<^verbatim>\<open>if x in dirs: dirs.remove(x)\<close> is \<open>remove1\<close>).
\<close>

definition count_prune :: "string list \<Rightarrow> string list \<Rightarrow> string list" where
  "count_prune folder_path dirs =
     (let d1 = (if folder_path = USERDATA then remove1 ''Thumbnails'' dirs else dirs);
          d2 = (if folder_path = ADDONS then remove1 ''packages'' d1 else d1);
          d3 = (if folder_path = ADDONS then remove1 ''temp'' d2 else d2);
          d4 = remove1 ''.git'' d3
      in remove1 ''__pycache__'' d4)"

fun count_files_loop :: "bool \<Rightarrow> string list \<Rightarrow> nat \<Rightarrow> nat" where
  "count_files_loop exclude_db [] count = count"
| "count_files_loop exclude_db (f # fs) count =
     (if exclude_db \<and> is_texture_db f then count_files_loop exclude_db fs count
      else count_files_loop exclude_db fs (count + 1))"

fun count_walk_loop :: "bool \<Rightarrow> (string list \<times> string list \<times> string list) list \<Rightarrow> nat \<Rightarrow> nat" where
  "count_walk_loop exclude_db [] count = count"
| "count_walk_loop exclude_db ((root_dir, dirs, files_list) # rest) count =
     count_walk_loop exclude_db rest (count_files_loop exclude_db files_list count)"

definition count_backup_files :: "node \<Rightarrow> string list \<Rightarrow> bool \<Rightarrow> nat" where
  "count_backup_files fs folder_path exclude_db =
     count_walk_loop exclude_db (walk (count_prune folder_path) fs folder_path) 0"

definition total_items :: "node \<Rightarrow> nat" where
  "total_items fs =
     (let t = count_backup_files fs ADDONS False
            + count_backup_files fs USERDATA True
            + count_backup_files fs MEDIA False
      in if t = 0 then 1 else t)"

text \<open>
  The state of the archiving pass: the members written so far (\<^verbatim>\<open>zipf\<close>), the progress
  counter (\<^verbatim>\<open>current\<close>) and how often the cancel flag has been polled. The answers of
  \<^verbatim>\<open>progress.iscanceled()\<close> are the function \<open>cancel\<close> of the poll number.
\<close>

record zipstate =
  zipf :: archive
  current :: nat
  polls :: nat

text \<open>
  Whether a name can be encoded for the archive: \<^verbatim>\<open>ZipFile\<close> encodes it as ASCII or
  else as UTF-8, which fails on a name that is not well-formed UTF-8 (Python holds the
  offending bytes as lone surrogates). \<open>utf8_scan k lo hi bs\<close> expects \<open>k\<close> more
  continuation bytes, the next of them between \<open>lo\<close> and \<open>hi\<close>.
\<close>

fun utf8_scan :: "nat \<Rightarrow> nat \<Rightarrow> nat \<Rightarrow> nat list \<Rightarrow> bool" where
  "utf8_scan 0 lo hi [] = True"
| "utf8_scan (Suc k) lo hi [] = False"
| "utf8_scan 0 lo hi (b # bs) =
     (if b < 128 then utf8_scan 0 128 191 bs
      else if 194 \<le> b \<and> b \<le> 223 then utf8_scan 1 128 191 bs
      else if b = 224 then utf8_scan 2 160 191 bs
      else if (225 \<le> b \<and> b \<le> 236) \<or> b = 238 \<or> b = 239 then utf8_scan 2 128 191 bs
      else if b = 237 then utf8_scan 2 128 159 bs
      else if b = 240 then utf8_scan 3 144 191 bs
      else if 241 \<le> b \<and> b \<le> 243 then utf8_scan 3 128 191 bs
      else if b = 244 then utf8_scan 3 128 143 bs
      else False)"
| "utf8_scan (Suc k) lo hi (b # bs) = (lo \<le> b \<and> b \<le> hi \<and> utf8_scan k 128 191 bs)"

definition utf8_valid :: "string \<Rightarrow> bool" where
  "utf8_valid s = utf8_scan 0 128 191 (map of_char s)"

text \<open>
  The calendar year of a time stamp (seconds since 1970) on a host whose local time is
  UTC. The program reads the year through \<^verbatim>\<open>time.localtime\<close>, which is the host's; the
  archiving pass takes it as the parameter \<open>tm_year\<close>.
\<close>

definition utc_year :: "rat \<Rightarrow> int" where
  "utc_year t =
     (let z = \<lfloor>t\<rfloor> div 86400 + 719468;
          era = z div 146097;
          doe = z - era * 146097;
          yoe = (doe - doe div 1460 + doe div 36524 - doe div 146096) div 365;
          doy = doe - (365 * yoe + yoe div 4 - yoe div 100);
          mp = (5 * doy + 2) div 153
      in yoe + era * 400 + (if mp < 10 then 0 else 1))"

text \<open>
  \<^verbatim>\<open>zipf.write(path, arcname)\<close> on an archive opened with the default
  \<^verbatim>\<open>strict_timestamps\<close>. It raises when the file is gone, when its modification time is
  before 1980 (\<^verbatim>\<open>ValueError\<close>), when it cannot be opened for reading, when the name is not
  encodable, and when the year is after 2107 (the DOS date does not fit its field).
\<close>

definition zip_write :: "(rat \<Rightarrow> int) \<Rightarrow> node \<Rightarrow> string list \<Rightarrow> string \<Rightarrow> archive
                           \<Rightarrow> pyerror + archive" where
  "zip_write tm_year fs full_path arcname z =
     (case node_at fs full_path of
        None \<Rightarrow> Inl FileNotFoundError
      | Some (Dir kids) \<Rightarrow> Inl IsADirectoryError
      | Some (File l r m d) \<Rightarrow>
          if tm_year m < 1980 then Inl ValueError
          else if \<not> r then Inl PermissionError
          else if \<not> utf8_valid arcname then Inl UnicodeEncodeError
          else if tm_year m > 2107 then Inl StructError
          else Inr (z @ [(arcname, True, d)]))"

text \<open>The edit of the subdirectory list in \<^verbatim>\<open>add_folder_to_zip\<close>.\<close>

definition add_prune :: "string list \<Rightarrow> string list \<Rightarrow> string list" where
  "add_prune folder_path dirs =
     (let d1 = (if folder_path = USERDATA then remove1 ''Thumbnails'' dirs else dirs);
          d2 = (if folder_path = ADDONS then remove1 ''packages'' d1 else d1);
          d3 = (if folder_path = ADDONS then remove1 ''temp'' d2 else d2);
          d4 = remove1 ''.git'' d3
      in remove1 ''__pycache__'' d4)"

text \<open>
  The loops of \<^verbatim>\<open>add_folder_to_zip\<close>. \<open>Inl st\<close> is the \<^verbatim>\<open>KeyboardInterrupt\<close> raised
  when the poll after an entry says cancelled, with the state reached.
\<close>

fun add_files_loop :: "(rat \<Rightarrow> int) \<Rightarrow> (nat \<Rightarrow> bool) \<Rightarrow> node \<Rightarrow> bool \<Rightarrow> string list \<Rightarrow> string list
                         \<Rightarrow> zipstate \<Rightarrow> zipstate + zipstate" where
  "add_files_loop tm_year cancel fs exclude_db root_dir [] st = Inr st"
| "add_files_loop tm_year cancel fs exclude_db root_dir (file # files) st =
     (if exclude_db \<and> is_texture_db file then add_files_loop tm_year cancel fs exclude_db root_dir files st
      else
        (let full_path = root_dir @ [file];
             arcname = get_zip_arcname full_path HOME;
             z = (case zip_write tm_year fs full_path arcname (zipf st) of
                    Inl e \<Rightarrow> zipf st | Inr z' \<Rightarrow> z');
             st' = st\<lparr>zipf := z, current := current st + 1, polls := polls st + 1\<rparr>
         in if cancel (polls st) then Inl st'
            else add_files_loop tm_year cancel fs exclude_db root_dir files st'))"

fun add_walk_loop :: "(rat \<Rightarrow> int) \<Rightarrow> (nat \<Rightarrow> bool) \<Rightarrow> node \<Rightarrow> bool
                        \<Rightarrow> (string list \<times> string list \<times> string list) list
                        \<Rightarrow> zipstate \<Rightarrow> zipstate + zipstate" where
  "add_walk_loop tm_year cancel fs exclude_db [] st = Inr st"
| "add_walk_loop tm_year cancel fs exclude_db ((root_dir, dirs, files) # rest) st =
     (case add_files_loop tm_year cancel fs exclude_db root_dir files st of
        Inl st' \<Rightarrow> Inl st'
      | Inr st' \<Rightarrow> add_walk_loop tm_year cancel fs exclude_db rest st')"

definition add_folder_to_zip :: "(rat \<Rightarrow> int) \<Rightarrow> (nat \<Rightarrow> bool) \<Rightarrow> node \<Rightarrow> string list \<Rightarrow> bool
                                   \<Rightarrow> zipstate \<Rightarrow> zipstate + zipstate" where
  "add_folder_to_zip tm_year cancel fs folder_path exclude_db st =
     add_walk_loop tm_year cancel fs exclude_db (walk (add_prune folder_path) fs folder_path) st"

text \<open>
  The body of the \<^verbatim>\<open>with zipfile.ZipFile(temp_zip, 'w')\<close> block of backup: add-ons, user
  data, the two directory markers, media.
\<close>

definition write_archive :: "(rat \<Rightarrow> int) \<Rightarrow> (nat \<Rightarrow> bool) \<Rightarrow> node \<Rightarrow> zipstate + zipstate" where
  "write_archive tm_year cancel fs =
     (case add_folder_to_zip tm_year cancel fs ADDONS False \<lparr>zipf = [], current = 0, polls = 0\<rparr> of
        Inl st \<Rightarrow> Inl st
      | Inr st1 \<Rightarrow>
          (case add_folder_to_zip tm_year cancel fs USERDATA True st1 of
             Inl st \<Rightarrow> Inl st
           | Inr st2 \<Rightarrow>
               add_folder_to_zip tm_year cancel fs MEDIA False
                 (st2\<lparr>zipf := zipf st2 @ [(''userdata/Thumbnails/'', True, Raw []),
                                           (''media/'', True, Raw [])]\<rparr>)))"


section \<open>Well-formed trees\<close>

text \<open>
  What every real directory tree satisfies: the names in a directory are distinct, and a
  name is not empty, is neither \<^verbatim>\<open>.\<close> nor \<^verbatim>\<open>..\<close>, and holds no slash.
\<close>

definition valid_name :: "string \<Rightarrow> bool" where
  "valid_name n = (n \<noteq> [] \<and> n \<noteq> ''.'' \<and> n \<noteq> ''..'' \<and> CHR ''/'' \<notin> set n)"

fun wf_node :: "node \<Rightarrow> bool"
  and wf_kids :: "(string \<times> node) list \<Rightarrow> bool"
where
  "wf_node (File l r m d) = True"
| "wf_node (Dir kids) = (distinct (map fst kids) \<and> wf_kids kids)"
| "wf_kids [] = True"
| "wf_kids ((n, k) # ks) = (valid_name n \<and> wf_node k \<and> wf_kids ks)"

text \<open>No file of the tree refuses to be read, and none is locked.\<close>

fun all_readable :: "node \<Rightarrow> bool"
  and all_readable_kids :: "(string \<times> node) list \<Rightarrow> bool"
where
  "all_readable (File l r m d) = r"
| "all_readable (Dir kids) = all_readable_kids kids"
| "all_readable_kids [] = True"
| "all_readable_kids ((n, k) # ks) = (all_readable k \<and> all_readable_kids ks)"

fun no_locked :: "node \<Rightarrow> bool"
  and no_locked_kids :: "(string \<times> node) list \<Rightarrow> bool"
where
  "no_locked (File l r m d) = (\<not> l)"
| "no_locked (Dir kids) = no_locked_kids kids"
| "no_locked_kids [] = True"
| "no_locked_kids ((n, k) # ks) = (no_locked k \<and> no_locked_kids ks)"


text \<open>What best-effort deletion leaves of what was at a path.\<close>

definition purge_opt :: "node option \<Rightarrow> node option" where
  "purge_opt x = Option.bind x purge"

text \<open>
  The files a walk visits, as full paths in the order of the nested loops
  (\<^verbatim>\<open>for root, dirs, files in os.walk(...): for f in files\<close>).
\<close>

definition walk_paths :: "(string list \<times> string list \<times> string list) list \<Rightarrow> string list list" where
  "walk_paths w = concat (map (\<lambda>(r, ds, fl). map (\<lambda>f. r @ [f]) fl) w)"

text \<open>
  \<open>reach X n rel\<close>: below the node \<open>n\<close> the relative path \<open>rel\<close> leads to a file, through
  directories none of which has a name in \<open>X\<close>.
\<close>

definition reach :: "string set \<Rightarrow> node \<Rightarrow> string list \<Rightarrow> bool" where
  "reach X n rel =
     (rel \<noteq> [] \<and> (\<exists>l r m d. lookup n rel = Some (File l r m d)) \<and> set (butlast rel) \<inter> X = {})"

section \<open>Auxiliary notions for the archiving pass\<close>

text \<open>The file names of one directory that pass the database test.\<close>

definition kept :: "bool \<Rightarrow> string list \<Rightarrow> string list" where
  "kept exclude_db fl = filter (\<lambda>f. \<not> (exclude_db \<and> is_texture_db f)) fl"

text \<open>
  The files the counting pre-pass counts below a folder, as full paths in the order of
  its loops.
\<close>

definition counted_files :: "node \<Rightarrow> string list \<Rightarrow> bool \<Rightarrow> string list list" where
  "counted_files fs folder_path exclude_db =
     concat (map (\<lambda>(r, ds, fl). map (\<lambda>f. r @ [f]) (kept exclude_db fl))
                 (walk (count_prune folder_path) fs folder_path))"

text \<open>
  A file can be added to the archive when it is there and readable, the year of its
  modification time is between 1980 and 2107, and its archive name is encodable.
\<close>

definition zip_addable :: "(rat \<Rightarrow> int) \<Rightarrow> node \<Rightarrow> string list \<Rightarrow> bool" where
  "zip_addable tm_year fs q =
     (case node_at fs q of
        Some (File l r m d) \<Rightarrow>
          r \<and> 1980 \<le> tm_year m \<and> tm_year m \<le> 2107 \<and> utf8_valid (get_zip_arcname q HOME)
      | _ \<Rightarrow> False)"

text \<open>The archive member that a file becomes: its archive name and its data.\<close>

definition file_entry :: "node \<Rightarrow> string list \<Rightarrow> string \<times> bool \<times> fdata" where
  "file_entry fs q =
     (get_zip_arcname q HOME, True,
      (case node_at fs q of Some (File l r m d) \<Rightarrow> d | _ \<Rightarrow> Raw []))"

text \<open>
  Two small trees, with files stamped in November 2023: one with an add-on, an excluded
  package, an excluded texture database and a settings file, one with user data and a
  font below media.
\<close>

definition fs_small :: node where
  "fs_small = Dir [(''kodi'', Dir
     [(''addons'', Dir [(''skin.x'', Dir [(''addon.xml'', File False True 1700000005 (Raw ''ab''))]),
                        (''packages'', Dir [(''x.zip'', File False True 1700000006 (Raw ''zz''))])]),
      (''userdata'', Dir [(''Textures13.db'', File False True 1700000007 (Raw ''t'')),
                          (''guisettings.xml'', File False True 1700000008 (Raw ''g''))]),
      (''temp'', Dir [])])]"

definition fs_media :: node where
  "fs_media = Dir [(''kodi'', Dir
     [(''userdata'', Dir [(''textures13.DB'', File False True 1700000007 (Raw ''t'')),
                          (''guisettings.xml'', File False True 1700000008 (Raw ''g''))]),
      (''media'', Dir [(''Fonts'', Dir [(''a.ttf'', File False True 1700000009 (Raw ''font''))])]),
      (''temp'', Dir [])])]"


section \<open>The target of an archive member\<close>

text \<open>
  C10. The claim that the media branch and the other branch of the target computation
  give the same path for every member name is what the code intends (the media branch
  is there to place the member below \<^verbatim>\<open>staging_dir/media\<close>), and the code breaks it. On a
  POSIX host the member name \<^verbatim>\<open>media//x\<close> makes the media branch join the rooted
  remainder \<^verbatim>\<open>/x\<close>, which replaces the staging directory: the target is \<^verbatim>\<open>/x\<close>, while
  the other branch gives \<^verbatim>\<open>staging_dir/media/x\<close>. On a Windows host the member name
  \<^verbatim>\<open>media/C:x\<close> makes the media branch join the drive-relative remainder \<^verbatim>\<open>C:x\<close>: the
  target is \<^verbatim>\<open>staging_dir\media\x\<close>, while the other branch gives
  \<^verbatim>\<open>staging_dir\media\C:x\<close>.
\<close>

theorem target_path_media_branch_differs:
  "startswith ''media//x'' ''media/''
   \<and> posix_staging = PPath [] ''/'' [''kodi'', ''temp'', ''restore_staging'']
   \<and> target_path Posix posix_staging ''media//x'' = PPath [] ''/'' [''x'']
   \<and> joinpath Posix posix_staging ''media//x''
       = PPath [] ''/'' [''kodi'', ''temp'', ''restore_staging'', ''media'', ''x'']
   \<and> startswith ''media/C:x'' ''media/''
   \<and> windows_staging = PPath ''C:'' [CHR 0x5C] [''kodi'', ''temp'', ''restore_staging'']
   \<and> target_path Windows windows_staging ''media/C:x''
       = PPath ''C:'' [CHR 0x5C] [''kodi'', ''temp'', ''restore_staging'', ''media'', ''x'']
   \<and> joinpath Windows windows_staging ''media/C:x''
       = PPath ''C:'' [CHR 0x5C] [''kodi'', ''temp'', ''restore_staging'', ''media'', ''C:x'']"
  by code_simp

section \<open>Lookup, resolution and the walk\<close>

lemma lookup_append:
  "lookup t (p @ q) = (case lookup t p of None \<Rightarrow> None | Some n \<Rightarrow> lookup n q)"
proof (induction t p rule: lookup.induct)
  case (1 n) show ?case by simp
next
  case (2 l r m d c cs) show ?case by simp
next
  case (3 kids c cs) then show ?case by (simp split: option.splits)
qed

lemma lookup_file_nonempty: "q \<noteq> [] \<Longrightarrow> lookup (File l r m d) q = None"
  by (cases q) simp_all

lemma lookup_prefix_is_dir:
  assumes "lookup t (p @ q) = Some n" and "q \<noteq> []"
  shows "\<exists>kids. lookup t p = Some (Dir kids)"
proof (cases "lookup t p")
  case None with assms show ?thesis by (simp add: lookup_append)
next
  case (Some k)
  show ?thesis
  proof (cases k)
    case (File l r m d)
    with Some assms show ?thesis by (simp add: lookup_append lookup_file_nonempty)
  next
    case (Dir kids) with Some show ?thesis by simp
  qed
qed

lemma resolve_from_plain:
  "''..'' \<notin> set cs \<Longrightarrow> cs \<noteq> [] \<Longrightarrow> lookup fs (cur @ butlast cs) = Some (Dir kids)
   \<Longrightarrow> resolve_from fs cur cs = Inr (cur @ cs)"
proof (induction cs arbitrary: cur kids)
  case Nil then show ?case by simp
next
  case (Cons c cs)
  show ?case
  proof (cases "cs = []")
    case True with Cons.prems show ?thesis by simp
  next
    case False
    then have bl: "butlast (c # cs) = c # butlast cs" by simp
    from Cons.prems(3) have L: "lookup fs ((cur @ [c]) @ butlast cs) = Some (Dir kids)"
      using False by simp
    have "\<exists>ks. lookup fs (cur @ [c]) = Some (Dir ks)"
    proof (cases "butlast cs = []")
      case True with L show ?thesis by simp
    next
      case False with L show ?thesis by (rule_tac lookup_prefix_is_dir) auto
    qed
    then obtain ks where ks: "lookup fs (cur @ [c]) = Some (Dir ks)" by blast
    have "resolve_from fs (cur @ [c]) cs = Inr ((cur @ [c]) @ cs)"
      using Cons.IH [OF _ False L] Cons.prems(1) by simp
    with ks False Cons.prems(1) show ?thesis by auto
  qed
qed

lemma resolve_plain:
  "''..'' \<notin> set p \<Longrightarrow> p \<noteq> [] \<Longrightarrow> lookup fs (butlast p) = Some (Dir kids) \<Longrightarrow> resolve fs p = Inr p"
  using resolve_from_plain [of p fs "[]" kids] by (simp add: resolve_def)

lemma resolve_nil: "resolve fs [] = Inr []"
  by (simp add: resolve_def)

lemma butlast_lookup_dir:
  assumes "lookup fs p = Some n" and "p \<noteq> []"
  shows "\<exists>kids. lookup fs (butlast p) = Some (Dir kids)"
proof -
  from assms(2) have "p = butlast p @ [last p]" by simp
  with assms(1) have "lookup fs (butlast p @ [last p]) = Some n" by simp
  then show ?thesis by (rule lookup_prefix_is_dir) simp
qed

lemma resolve_existing:
  assumes "''..'' \<notin> set p" and "lookup fs p = Some n"
  shows "resolve fs p = Inr p"
proof (cases "p = []")
  case True then show ?thesis by (simp add: resolve_nil)
next
  case False
  from butlast_lookup_dir [OF assms(2) False] obtain kids
    where "lookup fs (butlast p) = Some (Dir kids)" by blast
  with assms(1) False show ?thesis by (rule resolve_plain)
qed

lemma node_at_existing:
  "''..'' \<notin> set p \<Longrightarrow> lookup fs p = Some n \<Longrightarrow> node_at fs p = Some n"
  by (simp add: node_at_def resolve_existing)


lemma all_readable_kids_mem: "all_readable_kids ks \<Longrightarrow> (n, k) \<in> set ks \<Longrightarrow> all_readable k"
  by (induction ks) auto

lemma no_locked_kids_mem: "no_locked_kids ks \<Longrightarrow> (n, k) \<in> set ks \<Longrightarrow> no_locked k"
  by (induction ks) auto




lemma all_readable_lookup: "all_readable t \<Longrightarrow> lookup t p = Some n \<Longrightarrow> all_readable n"
proof (induction t p rule: lookup.induct)
  case (3 kids c cs)
  from "3.prems" obtain k where k: "map_of kids c = Some k" and l: "lookup k cs = Some n"
    by (auto split: option.splits)
  from k have "(c, k) \<in> set kids" by (rule map_of_SomeD)
  with "3.prems"(1) have "all_readable k" by (auto dest: all_readable_kids_mem)
  with "3.IH" k l show ?case by simp
qed simp_all

lemma no_locked_lookup: "no_locked t \<Longrightarrow> lookup t p = Some n \<Longrightarrow> no_locked n"
proof (induction t p rule: lookup.induct)
  case (3 kids c cs)
  from "3.prems" obtain k where k: "map_of kids c = Some k" and l: "lookup k cs = Some n"
    by (auto split: option.splits)
  from k have "(c, k) \<in> set kids" by (rule map_of_SomeD)
  with "3.prems"(1) have "no_locked k" by (auto dest: no_locked_kids_mem)
  with "3.IH" k l show ?case by simp
qed simp_all



section \<open>The counting pass and the archiving pass\<close>





lemma count_files_loop_eq:
  "count_files_loop ex fl c = c + length (kept ex fl)"
  by (induction fl arbitrary: c) (auto simp: kept_def)

lemma count_walk_loop_eq:
  "count_walk_loop ex w c
   = c + length (concat (map (\<lambda>(r, ds, fl). map (\<lambda>f. r @ [f]) (kept ex fl)) w))"
  by (induction w arbitrary: c) (auto simp: count_files_loop_eq)

lemma count_backup_files_eq:
  "count_backup_files fs p ex = length (counted_files fs p ex)"
  by (simp add: count_backup_files_def counted_files_def count_walk_loop_eq)

lemma zip_write_addable:
  assumes "zip_addable tm_year fs q"
  shows "zip_write tm_year fs q (get_zip_arcname q HOME) z = Inr (z @ [file_entry fs q])"
proof -
  from assms obtain l r m d where n: "node_at fs q = Some (File l r m d)"
    by (auto simp: zip_addable_def split: option.splits node.splits)
  with assms show ?thesis
    by (simp add: zip_addable_def zip_write_def file_entry_def)
qed

lemma add_files_loop_current:
  "add_files_loop tm_year cancel fs ex r fl st = Inr st'
   \<Longrightarrow> current st' = current st + length (kept ex fl)"
proof (induction fl arbitrary: st)
  case Nil then show ?case by (simp add: kept_def)
next
  case (Cons f fl)
  show ?case
  proof (cases "ex \<and> is_texture_db f")
    case True
    with Cons.prems have "add_files_loop tm_year cancel fs ex r fl st = Inr st'" by simp
    from Cons.IH [OF this] True show ?thesis by (simp add: kept_def)
  next
    case False
    let ?z = "case zip_write tm_year fs (r @ [f]) (get_zip_arcname (r @ [f]) HOME) (zipf st) of
                Inl e \<Rightarrow> zipf st | Inr z' \<Rightarrow> z'"
    let ?st = "st\<lparr>zipf := ?z, current := current st + 1, polls := polls st + 1\<rparr>"
    from Cons.prems False have "add_files_loop tm_year cancel fs ex r fl ?st = Inr st'"
      by (simp add: Let_def split: if_splits)
    from Cons.IH [OF this] False show ?thesis by (simp add: kept_def)
  qed
qed

lemma add_files_loop_entries:
  "add_files_loop tm_year cancel fs ex r fl st = Inr st'
   \<Longrightarrow> (\<And>f. f \<in> set (kept ex fl) \<Longrightarrow> zip_addable tm_year fs (r @ [f]))
   \<Longrightarrow> zipf st' = zipf st @ map (file_entry fs) (map (\<lambda>f. r @ [f]) (kept ex fl))"
proof (induction fl arbitrary: st)
  case Nil then show ?case by (simp add: kept_def)
next
  case (Cons f fl)
  have rest: "\<And>g. g \<in> set (kept ex fl) \<Longrightarrow> zip_addable tm_year fs (r @ [g])"
    using Cons.prems(2) by (simp add: kept_def)
  show ?case
  proof (cases "ex \<and> is_texture_db f")
    case True
    with Cons.prems have "add_files_loop tm_year cancel fs ex r fl st = Inr st'" by simp
    from Cons.IH [OF this rest] True show ?thesis by (simp add: kept_def)
  next
    case False
    then have "f \<in> set (kept ex (f # fl))" by (simp add: kept_def)
    then have "zip_addable tm_year fs (r @ [f])" by (rule Cons.prems(2))
    then have zw: "zip_write tm_year fs (r @ [f]) (get_zip_arcname (r @ [f]) HOME) (zipf st)
                   = Inr (zipf st @ [file_entry fs (r @ [f])])"
      by (rule zip_write_addable)
    let ?st = "st\<lparr>zipf := zipf st @ [file_entry fs (r @ [f])],
                   current := current st + 1, polls := polls st + 1\<rparr>"
    from Cons.prems(1) False zw have "add_files_loop tm_year cancel fs ex r fl ?st = Inr st'"
      by (simp add: Let_def split: if_splits)
    from Cons.IH [OF this rest] False show ?thesis by (simp add: kept_def)
  qed
qed

lemma add_walk_loop_current:
  "add_walk_loop tm_year cancel fs ex w st = Inr st'
   \<Longrightarrow> current st' = current st
        + length (concat (map (\<lambda>(r, ds, fl). map (\<lambda>f. r @ [f]) (kept ex fl)) w))"
proof (induction w arbitrary: st)
  case Nil then show ?case by simp
next
  case (Cons t w)
  obtain r ds fl where t: "t = (r, ds, fl)" by (cases t)
  from Cons.prems t obtain st1 where a: "add_files_loop tm_year cancel fs ex r fl st = Inr st1"
    and b: "add_walk_loop tm_year cancel fs ex w st1 = Inr st'"
    by (auto split: sum.splits)
  from add_files_loop_current [OF a] Cons.IH [OF b] t show ?case by simp
qed

lemma add_walk_loop_entries:
  "add_walk_loop tm_year cancel fs ex w st = Inr st'
   \<Longrightarrow> (\<And>q. q \<in> set (concat (map (\<lambda>(r, ds, fl). map (\<lambda>f. r @ [f]) (kept ex fl)) w))
          \<Longrightarrow> zip_addable tm_year fs q)
   \<Longrightarrow> zipf st' = zipf st
        @ map (file_entry fs) (concat (map (\<lambda>(r, ds, fl). map (\<lambda>f. r @ [f]) (kept ex fl)) w))"
proof (induction w arbitrary: st)
  case Nil then show ?case by simp
next
  case (Cons t w)
  obtain r ds fl where t: "t = (r, ds, fl)" by (cases t)
  from Cons.prems(1) t obtain st1
    where a: "add_files_loop tm_year cancel fs ex r fl st = Inr st1"
      and b: "add_walk_loop tm_year cancel fs ex w st1 = Inr st'"
    by (auto split: sum.splits)
  have r1: "zip_addable tm_year fs (r @ [f])" if "f \<in> set (kept ex fl)" for f
    using Cons.prems(2) [of "r @ [f]"] that t by simp
  have r2: "zip_addable tm_year fs q"
    if "q \<in> set (concat (map (\<lambda>(r, ds, fl). map (\<lambda>f. r @ [f]) (kept ex fl)) w))" for q
    using Cons.prems(2) [of q] that by simp
  from add_files_loop_entries [OF a r1] Cons.IH [OF b r2] t show ?case by simp
qed

lemma add_prune_eq: "add_prune folder_path = count_prune folder_path"
  by (rule ext) (simp add: add_prune_def count_prune_def)

lemma add_folder_current:
  "add_folder_to_zip tm_year cancel fs p ex st = Inr st'
   \<Longrightarrow> current st' = current st + length (counted_files fs p ex)"
  by (simp add: add_folder_to_zip_def counted_files_def add_prune_eq add_walk_loop_current)

lemma add_folder_entries:
  assumes "add_folder_to_zip tm_year cancel fs p ex st = Inr st'"
    and "\<And>q. q \<in> set (counted_files fs p ex) \<Longrightarrow> zip_addable tm_year fs q"
  shows "zipf st' = zipf st @ map (file_entry fs) (counted_files fs p ex)"
proof -
  from assms(1)
  have a: "add_walk_loop tm_year cancel fs ex (walk (count_prune p) fs p) st = Inr st'"
    by (simp add: add_folder_to_zip_def add_prune_eq)
  from add_walk_loop_entries [OF a] assms(2) show ?thesis
    by (simp add: counted_files_def)
qed

text \<open>
  C8, as the code has it. When every file the pre-pass counts can be added to the
  archive at the time it is written, and the archiving pass is not cancelled: the count
  of the pre-pass below each of the three roots is the number of files it lists there;
  the progress counter ends at the total of the three counts; the archive holds one
  member for each counted file, in the order add-ons, user data, media, and besides them
  exactly the two directory markers \<^verbatim>\<open>userdata/Thumbnails/\<close> and \<^verbatim>\<open>media/\<close>, so that it
  has two members more than the total count.
\<close>

theorem count_matches_written:
  assumes wf: "wf_node fs"
    and ok: "\<forall>q \<in> set (counted_files fs ADDONS False) \<union> set (counted_files fs USERDATA True)
                  \<union> set (counted_files fs MEDIA False). zip_addable tm_year fs q"
    and run: "write_archive tm_year cancel fs = Inr st"
  shows "count_backup_files fs ADDONS False = length (counted_files fs ADDONS False)
       \<and> count_backup_files fs USERDATA True = length (counted_files fs USERDATA True)
       \<and> count_backup_files fs MEDIA False = length (counted_files fs MEDIA False)
       \<and> current st = count_backup_files fs ADDONS False + count_backup_files fs USERDATA True
                      + count_backup_files fs MEDIA False
       \<and> zipf st = map (file_entry fs) (counted_files fs ADDONS False)
                   @ map (file_entry fs) (counted_files fs USERDATA True)
                   @ [(''userdata/Thumbnails/'', True, Raw []), (''media/'', True, Raw [])]
                   @ map (file_entry fs) (counted_files fs MEDIA False)
       \<and> length (zipf st) = count_backup_files fs ADDONS False
                      + count_backup_files fs USERDATA True
                      + count_backup_files fs MEDIA False + 2"
proof -
  let ?st0 = "\<lparr>zipf = [], current = 0, polls = 0\<rparr>"
  let ?marks = "[(''userdata/Thumbnails/'', True, Raw []), (''media/'', True, Raw [])]"
  from run obtain st1 st2 where
      a: "add_folder_to_zip tm_year cancel fs ADDONS False ?st0 = Inr st1"
    and u: "add_folder_to_zip tm_year cancel fs USERDATA True st1 = Inr st2"
    and m: "add_folder_to_zip tm_year cancel fs MEDIA False
              (st2\<lparr>zipf := zipf st2 @ ?marks\<rparr>) = Inr st"
    by (auto simp: write_archive_def split: sum.splits)
  have oa: "\<And>q. q \<in> set (counted_files fs ADDONS False) \<Longrightarrow> zip_addable tm_year fs q"
    and ou: "\<And>q. q \<in> set (counted_files fs USERDATA True) \<Longrightarrow> zip_addable tm_year fs q"
    and om: "\<And>q. q \<in> set (counted_files fs MEDIA False) \<Longrightarrow> zip_addable tm_year fs q"
    using ok by blast+
  have c: "current st = length (counted_files fs ADDONS False)
           + length (counted_files fs USERDATA True) + length (counted_files fs MEDIA False)"
    using add_folder_current [OF a] add_folder_current [OF u] add_folder_current [OF m] by simp
  have z: "zipf st = map (file_entry fs) (counted_files fs ADDONS False)
                   @ map (file_entry fs) (counted_files fs USERDATA True)
                   @ ?marks @ map (file_entry fs) (counted_files fs MEDIA False)"
    using add_folder_entries [OF a oa] add_folder_entries [OF u ou] add_folder_entries [OF m om]
    by simp
  have l: "length (zipf st) = length (counted_files fs ADDONS False)
           + length (counted_files fs USERDATA True) + length (counted_files fs MEDIA False) + 2"
    by (subst z) simp
  from c z l show ?thesis by (simp only: count_backup_files_eq)
qed

theorem count_matches_written_witness:
  "wf_node fs_media
   \<and> counted_files fs_media ADDONS False = []
   \<and> counted_files fs_media USERDATA True = [[''kodi'', ''userdata'', ''guisettings.xml'']]
   \<and> counted_files fs_media MEDIA False = [[''kodi'', ''media'', ''Fonts'', ''a.ttf'']]
   \<and> zip_addable utc_year fs_media [''kodi'', ''userdata'', ''guisettings.xml'']
   \<and> zip_addable utc_year fs_media [''kodi'', ''media'', ''Fonts'', ''a.ttf'']
   \<and> write_archive utc_year (\<lambda>n. False) fs_media
       = Inr \<lparr>zipf = [(''userdata/guisettings.xml'', True, Raw ''g''),
                       (''userdata/Thumbnails/'', True, Raw []),
                       (''media/'', True, Raw []),
                       (''media/Fonts/a.ttf'', True, Raw ''font'')],
               current = 2, polls = 2\<rparr>
   \<and> count_backup_files fs_media ADDONS False + count_backup_files fs_media USERDATA True
       + count_backup_files fs_media MEDIA False = 2"
proof -
  let ?st = "\<lparr>zipf = [(''userdata/guisettings.xml'', True, Raw ''g''),
                       (''userdata/Thumbnails/'', True, Raw []),
                       (''media/'', True, Raw []),
                       (''media/Fonts/a.ttf'', True, Raw ''font'')],
               current = 2, polls = 2\<rparr>"
  have h1: "wf_node fs_media" by code_simp
  have ca: "counted_files fs_media ADDONS False = []" by code_simp
  have cu: "counted_files fs_media USERDATA True = [[''kodi'', ''userdata'', ''guisettings.xml'']]"
    by code_simp
  have cm: "counted_files fs_media MEDIA False = [[''kodi'', ''media'', ''Fonts'', ''a.ttf'']]"
    by code_simp
  have a1: "zip_addable utc_year fs_media [''kodi'', ''userdata'', ''guisettings.xml'']"
    by code_simp
  have a2: "zip_addable utc_year fs_media [''kodi'', ''media'', ''Fonts'', ''a.ttf'']"
    by code_simp
  have h2: "\<forall>q \<in> set (counted_files fs_media ADDONS False)
                 \<union> set (counted_files fs_media USERDATA True)
                 \<union> set (counted_files fs_media MEDIA False). zip_addable utc_year fs_media q"
    using a1 a2 by (simp add: ca cu cm)
  have h3: "write_archive utc_year (\<lambda>n. False) fs_media = Inr ?st" by code_simp
  note concl = count_matches_written [OF h1 h2 h3]
  from concl have e1: "count_backup_files fs_media ADDONS False
                     = length (counted_files fs_media ADDONS False)"
    by (rule conjunct1)
  from concl have e2: "count_backup_files fs_media USERDATA True
                     = length (counted_files fs_media USERDATA True)"
    by (elim conjE)
  from concl have e3: "count_backup_files fs_media MEDIA False
                     = length (counted_files fs_media MEDIA False)"
    by (elim conjE)
  have s: "count_backup_files fs_media ADDONS False + count_backup_files fs_media USERDATA True
           + count_backup_files fs_media MEDIA False = 2"
    unfolding e1 e2 e3 ca cu cm by simp
  show ?thesis by (intro conjI h1 ca cu cm a1 a2 h3 s)
qed

text \<open>
  C8 as stated fails: on a tree with two eligible files (and one excluded database, one
  excluded package), all stamped in 2023 and readable, the pre-pass counts 2, and the
  archive written holds 4 members.
\<close>

theorem count_differs_from_entries:
  "wf_node fs_small
   \<and> counted_files fs_small ADDONS False = [[''kodi'', ''addons'', ''skin.x'', ''addon.xml'']]
   \<and> counted_files fs_small USERDATA True = [[''kodi'', ''userdata'', ''guisettings.xml'']]
   \<and> counted_files fs_small MEDIA False = []
   \<and> zip_addable utc_year fs_small [''kodi'', ''addons'', ''skin.x'', ''addon.xml'']
   \<and> zip_addable utc_year fs_small [''kodi'', ''userdata'', ''guisettings.xml'']
   \<and> write_archive utc_year (\<lambda>n. False) fs_small
       = Inr \<lparr>zipf = [(''addons/skin.x/addon.xml'', True, Raw ''ab''),
                       (''userdata/guisettings.xml'', True, Raw ''g''),
                       (''userdata/Thumbnails/'', True, Raw []),
                       (''media/'', True, Raw [])],
               current = 2, polls = 2\<rparr>
   \<and> count_backup_files fs_small ADDONS False + count_backup_files fs_small USERDATA True
       + count_backup_files fs_small MEDIA False = 2
   \<and> length [(''addons/skin.x/addon.xml'', True, Raw ''ab''),
              (''userdata/guisettings.xml'', True, Raw ''g''),
              (''userdata/Thumbnails/'', True, Raw []),
              (''media/'', True, Raw [])] = (4::nat)"
  by code_simp

section \<open>Changing the tree at a path\<close>





lemma lookup_modify_beneath:
  "p \<noteq> [] \<Longrightarrow> lookup t (butlast p) = Some (Dir ks)
   \<Longrightarrow> lookup (modify p f t) (p @ r) = (case f (lookup t p) of None \<Rightarrow> None | Some n \<Rightarrow> lookup n r)"
proof (induction p f t arbitrary: ks rule: modify.induct)
  case (1 f n) then show ?case by simp
next
  case (2 c cs f l r' m d)
  then show ?case by (cases "cs = []") (simp_all add: lookup_file_nonempty)
next
  case (3 c cs f kids)
  show ?case
  proof (cases "cs = []")
    case True
    then show ?thesis by (auto simp: update_conv' delete_conv' split: option.splits)
  next
    case False
    with "3.prems" obtain k where k: "map_of kids c = Some k"
      and l: "lookup k (butlast cs) = Some (Dir ks)" by (auto split: option.splits)
    from "3.IH" [OF False k False l] k False show ?thesis by (simp add: update_conv')
  qed
qed

lemma lookup_modify_same:
  "p \<noteq> [] \<Longrightarrow> lookup t (butlast p) = Some (Dir ks) \<Longrightarrow> lookup (modify p f t) p = f (lookup t p)"
  using lookup_modify_beneath [of p t ks f "[]"] by (simp split: option.splits)

lemma modify_no_parent:
  "p \<noteq> [] \<Longrightarrow> (\<forall>ks. lookup t (butlast p) \<noteq> Some (Dir ks)) \<Longrightarrow> modify p f t = t"
proof (induction p f t rule: modify.induct)
  case (1 f n) then show ?case by simp
next
  case (2 c cs f l r m d) then show ?case by simp
next
  case (3 c cs f kids)
  show ?case
  proof (cases "cs = []")
    case True with "3.prems" show ?thesis by simp
  next
    case False
    show ?thesis
    proof (cases "map_of kids c")
      case None with False show ?thesis by simp
    next
      case (Some k)
      from "3.prems" False Some have "\<forall>ks. lookup k (butlast cs) \<noteq> Some (Dir ks)" by simp
      from "3.IH" [OF False Some False this] have "modify cs f k = k" .
      with Some False show ?thesis by (simp add: map_of_eq_Some_iff update_triv)
    qed
  qed
qed

lemma lookup_modify_above:
  "r \<noteq> [] \<Longrightarrow> lookup (modify (q @ r) f t) q = map_option (modify r f) (lookup t q)"
proof (induction q arbitrary: t)
  case Nil then show ?case by simp
next
  case (Cons c q)
  show ?case
  proof (cases t)
    case (File l rd m d) then show ?thesis by simp
  next
    case (Dir kids)
    show ?thesis
    proof (cases "map_of kids c")
      case None with Dir Cons.prems show ?thesis by simp
    next
      case (Some k)
      with Dir Cons show ?thesis by (simp add: update_conv')
    qed
  qed
qed

lemma lookup_no_parent:
  assumes "p \<noteq> []" and "\<forall>ks. lookup fs (butlast p) \<noteq> Some (Dir ks)"
  shows "lookup fs p = None"
proof (cases "lookup fs p")
  case None then show ?thesis .
next
  case (Some n)
  from butlast_lookup_dir [OF Some assms(1)] assms(2) show ?thesis by blast
qed

lemma lookup_append_None: "lookup t p = None \<Longrightarrow> lookup t (p @ q) = None"
  by (simp add: lookup_append)

lemma lookup_append_Some: "lookup t p = Some n \<Longrightarrow> lookup t (p @ q) = lookup n q"
  by (simp add: lookup_append)

lemma lookup_single: "lookup (Dir kids) [c] = map_of kids c"
  by (simp split: option.splits)

lemma resolve_from_plain_cases:
  "''..'' \<notin> set cs \<Longrightarrow>
   resolve_from fs cur cs = Inr (cur @ cs)
   \<or> (cs \<noteq> [] \<and> (\<exists>e. resolve_from fs cur cs = Inl e)
       \<and> (\<forall>ks. lookup fs (cur @ butlast cs) \<noteq> Some (Dir ks)))"
proof (induction cs arbitrary: cur)
  case Nil then show ?case by simp
next
  case (Cons c cs)
  show ?case
  proof (cases "cs = []")
    case True with Cons.prems show ?thesis by auto
  next
    case False
    then have bl: "cur @ butlast (c # cs) = (cur @ [c]) @ butlast cs" by simp
    from Cons.prems have c: "c \<noteq> ''..''" and cs: "''..'' \<notin> set cs" by auto
    show ?thesis
    proof (cases "lookup fs (cur @ [c])")
      case None
      then have "lookup fs ((cur @ [c]) @ butlast cs) = None" by (rule lookup_append_None)
      with None False c show ?thesis unfolding bl by simp
    next
      case (Some n)
      show ?thesis
      proof (cases n)
        case (File l r m d)
        from Some have "lookup fs ((cur @ [c]) @ butlast cs) = lookup n (butlast cs)"
          by (rule lookup_append_Some)
        then have "\<forall>ks. lookup fs ((cur @ [c]) @ butlast cs) \<noteq> Some (Dir ks)"
          using File by (cases "butlast cs = []") (simp_all add: lookup_file_nonempty)
        with Some File False c show ?thesis unfolding bl by simp
      next
        case (Dir kids)
        from Cons.IH [OF cs, of "cur @ [c]"] Some Dir False c show ?thesis
          unfolding bl by auto
      qed
    qed
  qed
qed

lemma resolve_plain_cases:
  assumes "''..'' \<notin> set p"
  shows "resolve fs p = Inr p
         \<or> (p \<noteq> [] \<and> (\<exists>e. resolve fs p = Inl e) \<and> (\<forall>ks. lookup fs (butlast p) \<noteq> Some (Dir ks)))"
  using resolve_from_plain_cases [OF assms, of fs "[]"] by (simp add: resolve_def)

lemma node_at_plain_eq:
  assumes "''..'' \<notin> set p"
  shows "node_at fs p = lookup fs p"
  using resolve_plain_cases [OF assms, of fs]
  by (auto simp: node_at_def lookup_no_parent)


lemma path_is_dir_plain:
  "''..'' \<notin> set p \<Longrightarrow> path_is_dir fs p = (\<exists>ks. lookup fs p = Some (Dir ks))"
  by (auto simp: path_is_dir_def node_at_plain_eq split: option.splits node.splits)


lemma modify_id:
  "f (lookup t p) = lookup t p \<Longrightarrow> p \<noteq> [] \<Longrightarrow> modify p f t = t"
proof (induction p f t rule: modify.induct)
  case (1 f n) then show ?case by simp
next
  case (2 c cs f l r m d) then show ?case by simp
next
  case (3 c cs f kids)
  show ?case
  proof (cases "cs = []")
    case True
    from "3.prems"(1) True have fm: "f (map_of kids c) = map_of kids c"
      by (simp only: lookup_single)
    show ?thesis
    proof (cases "map_of kids c")
      case None
      then have "c \<notin> fst ` set kids" by (simp add: map_of_eq_None_iff)
      with None fm True show ?thesis by simp
    next
      case (Some k)
      with fm True show ?thesis by (simp add: update_triv)
    qed
  next
    case False
    show ?thesis
    proof (cases "map_of kids c")
      case None with False show ?thesis by simp
    next
      case (Some k)
      from "3.prems" Some have "f (lookup k cs) = lookup k cs" by simp
      from "3.IH" [OF False Some this False] have "modify cs f k = k" .
      with Some False show ?thesis by (simp add: update_triv)
    qed
  qed
qed

section \<open>Well-formedness and best-effort deletion\<close>








lemma modify_cong:
  "f (lookup t p) = g (lookup t p) \<Longrightarrow> modify p f t = modify p g t"
proof (induction p f t rule: modify.induct)
  case (1 f n) then show ?case by simp
next
  case (2 c cs f l r m d) then show ?case by simp
next
  case (3 c cs f kids)
  show ?case
  proof (cases "cs = []")
    case True
    with "3.prems" have "f (map_of kids c) = g (map_of kids c)" by (simp only: lookup_single)
    with True show ?thesis by simp
  next
    case False
    show ?thesis
    proof (cases "map_of kids c")
      case None with False show ?thesis by simp
    next
      case (Some k)
      from "3.prems" Some have "f (lookup k cs) = g (lookup k cs)" by simp
      from "3.IH" [OF False Some this] Some False show ?thesis by simp
    qed
  qed
qed

lemma purge_no_locked:
  "no_locked k \<Longrightarrow> purge k = None"
  "no_locked_kids ks \<Longrightarrow> purge_kids ks = []"
  by (induction k and ks rule: purge_purge_kids.induct) auto






section \<open>Deleting items and wiping folders\<close>

lemma safe_delete_item_plain:
  assumes pl: "''..'' \<notin> set p" and ne: "p \<noteq> []"
  shows "safe_delete_item p fs = modify p purge_opt fs"
proof (cases "lookup fs p")
  case None
  have nd: "\<not> path_is_dir fs p" using None by (simp add: path_is_dir_plain [OF pl])
  have "\<exists>e. os_unlink p fs = Inl e"
    using resolve_plain_cases [OF pl, of fs] None by (auto simp: os_unlink_def)
  with nd have "safe_delete_item p fs = fs" by (auto simp: safe_delete_item_def)
  moreover have "modify p purge_opt fs = fs"
    by (rule modify_id) (simp_all add: None ne purge_opt_def)
  ultimately show ?thesis by simp
next
  case (Some k)
  have rs: "resolve fs p = Inr p" by (rule resolve_existing [OF pl Some])
  show ?thesis
  proof (cases k)
    case (File l r m d)
    have nd: "\<not> path_is_dir fs p" using Some File by (simp add: path_is_dir_plain [OF pl])
    show ?thesis
    proof (cases l)
      case True
      have "modify p purge_opt fs = fs"
        by (rule modify_id) (simp_all add: Some File True ne purge_opt_def)
      moreover have "safe_delete_item p fs = fs"
        using nd rs Some File True by (simp add: safe_delete_item_def os_unlink_def)
      ultimately show ?thesis by simp
    next
      case False
      have "modify p (\<lambda>_. None) fs = modify p purge_opt fs"
        by (rule modify_cong) (simp add: Some File False purge_opt_def)
      moreover have "safe_delete_item p fs = modify p (\<lambda>_. None) fs"
        using nd rs Some File False by (simp add: safe_delete_item_def os_unlink_def)
      ultimately show ?thesis by simp
    qed
  next
    case (Dir kids)
    have d: "path_is_dir fs p" using Some Dir by (simp add: path_is_dir_plain [OF pl])
    have "modify p (\<lambda>_. purge (Dir kids)) fs = modify p purge_opt fs"
      by (rule modify_cong) (simp add: Some Dir purge_opt_def)
    moreover have "safe_delete_item p fs = modify p (\<lambda>_. purge (Dir kids)) fs"
      using d rs Some Dir ne by (simp add: safe_delete_item_def rmtree_ignore_def)
    ultimately show ?thesis by simp
  qed
qed




lemma modify_keeps_dir:
  assumes "r \<noteq> []"
  shows "(\<exists>ks. lookup (modify (q @ r) f t) q = Some (Dir ks)) = (\<exists>ks. lookup t q = Some (Dir ks))"
proof -
  have m: "(\<exists>ks. modify r f n = Dir ks) = (\<exists>ks. n = Dir ks)" for n
  proof (cases r)
    case Nil with assms show ?thesis by simp
  next
    case (Cons c cs)
    then show ?thesis by (cases n) (auto split: option.splits)
  qed
  show ?thesis
  proof (cases "lookup t q")
    case None then show ?thesis by (simp add: lookup_modify_above [OF assms])
  next
    case (Some n)
    with m [of n] show ?thesis by (simp add: lookup_modify_above [OF assms])
  qed
qed

lemma safe_delete_item_keeps_dir:
  assumes "''..'' \<notin> set (q @ r)" and "r \<noteq> []"
  shows "(\<exists>ks. lookup (safe_delete_item (q @ r) fs) q = Some (Dir ks))
         = (\<exists>ks. lookup fs q = Some (Dir ks))"
  using assms by (simp add: safe_delete_item_plain modify_keeps_dir del: append_assoc)





lemma wipe_loop_keeps_dir:
  "''..'' \<notin> set folder \<Longrightarrow> ''..'' \<notin> set names \<Longrightarrow> prefix q folder
   \<Longrightarrow> (\<exists>ks. lookup (wipe_loop folder excl names fs) q = Some (Dir ks))
       = (\<exists>ks. lookup fs q = Some (Dir ks))"
proof (induction names arbitrary: fs)
  case Nil show ?case by simp
next
  case (Cons n names)
  from Cons.prems(3) obtain r where r: "folder = q @ r" by (auto simp: prefix_def)
  from Cons.prems r have pl: "''..'' \<notin> set (q @ (r @ [n]))" by auto
  have k: "(\<exists>ks. lookup (safe_delete_item (folder @ [n]) fs) q = Some (Dir ks))
         = (\<exists>ks. lookup fs q = Some (Dir ks))"
    using safe_delete_item_keeps_dir [OF pl, of fs] r by simp
  from Cons.IH [of "safe_delete_item (folder @ [n]) fs"] Cons.IH [of fs] Cons.prems k
  show ?case by simp
qed


section \<open>What trimming leaves alone\<close>















section \<open>The routine clean\<close>










end
